theory Spec2Isabelle
  imports Main "HOL-Library.Word"
begin

section \<open>Data model of main.go\<close>

text \<open>
  The Go struct \<^verbatim>\<open>Merchant\<close>: \<^verbatim>\<open>RetailerID int64\<close>, \<^verbatim>\<open>BranchCount *int32\<close> (a nil pointer is
  SQL NULL, modelled as \<open>None\<close>) and \<^verbatim>\<open>ExpireAt time.Time\<close> (an instant, modelled as an
  integer; the program never inspects it).
\<close>

record Merchant =
  RetailerID :: "64 word"
  BranchCount :: "32 word option"
  ExpireAt :: int

text \<open>Errors that the program can see, and the ways it can panic.\<close>

datatype error =
    ErrRecordNotFound
  | ErrStore
  | ErrOpenDB
  | ErrConfigDB
  | ErrOpenFile
  | ErrRead
  | ErrFieldCount
  | ErrSyntax
  | ErrRange

datatype panic = NilDereference | IndexOutOfRange | SendOnClosedChannel

datatype 'a outcome = Return 'a | Panic panic

text \<open>The SQL statements that reach the server, and the lines written by logrus.\<close>

datatype stmt = Select "64 word" | Update "64 word" "32 word"

datatype log_entry =
    LogNewDBError error
  | LogHandle "64 word"
  | LogNotFound "64 word"
  | LogUpdate "32 word"
  | LogAlreadySet "32 word"
  | LogGatewayError error
  | LogParseRetailerID error
  | LogParseBranchCount error
  | LogLoadError error
  | LogDone

text \<open>
  The world outside the process: the rows of table \<^verbatim>\<open>merchant\<close> in storage order, the
  outcome of the coming round trips to the server (\<open>True\<close>: the round trip fails; once
  the list is used up every round trip succeeds), the statements issued so far and the
  log written so far. A failed statement changes no row.
\<close>

record world =
  rows :: "Merchant list"
  faults :: "bool list"
  issued :: "stmt list"
  logs :: "log_entry list"

definition logf :: "log_entry \<Rightarrow> world \<Rightarrow> world" where
  "logf e w = w\<lparr>logs := logs w @ [e]\<rparr>"

definition round_trip :: "stmt \<Rightarrow> world \<Rightarrow> bool \<times> world" where
  "round_trip q w =
     (case faults w of
        [] \<Rightarrow> (False, w\<lparr>issued := issued w @ [q]\<rparr>)
      | f # fs \<Rightarrow> (f, w\<lparr>faults := fs, issued := issued w @ [q]\<rparr>))"

text \<open>
  \<^verbatim>\<open>db.Table(tableName).Clauses(cond).Take(merchant)\<close>: a SELECT with
  \<^verbatim>\<open>WHERE retailer_id = ? LIMIT 1\<close>; no row gives \<^verbatim>\<open>gorm.ErrRecordNotFound\<close>.
\<close>

definition db_take :: "64 word \<Rightarrow> world \<Rightarrow> (error + Merchant) \<times> world" where
  "db_take k w =
     (case round_trip (Select k) w of
        (True, w1) \<Rightarrow> (Inl ErrStore, w1)
      | (False, w1) \<Rightarrow>
          (case find (\<lambda>r. RetailerID r = k) (rows w1) of
             None \<Rightarrow> (Inl ErrRecordNotFound, w1)
           | Some r \<Rightarrow> (Inr r, w1)))"

text \<open>
  \<^verbatim>\<open>db.Table(tableName).Clauses(cond).Update(columnName, v)\<close>: an UPDATE of the one
  column \<^verbatim>\<open>branch_count\<close> on every row with \<^verbatim>\<open>retailer_id = ?\<close>.
\<close>

definition set_branch :: "64 word \<Rightarrow> 32 word \<Rightarrow> Merchant \<Rightarrow> Merchant" where
  "set_branch k v r = (if RetailerID r = k then r\<lparr>BranchCount := Some v\<rparr> else r)"

definition db_update :: "64 word \<Rightarrow> 32 word \<Rightarrow> world \<Rightarrow> error option \<times> world" where
  "db_update k v w =
     (case round_trip (Update k v) w of
        (True, w1) \<Rightarrow> (Some ErrStore, w1)
      | (False, w1) \<Rightarrow> (None, w1\<lparr>rows := map (set_branch k v) (rows w1)\<rparr>))"

text \<open>The handle returned by \<^verbatim>\<open>newDB\<close>: a nil pointer when it failed.\<close>

datatype db_handle = NilDB | OpenDB

text \<open>
  \<^verbatim>\<open>updateBranchCount\<close> (lines 68 to 91). On a nil handle the first method call
  dereferences nil. The \<^verbatim>\<open>*int32\<close> argument is dereferenced only where the stored
  value is NULL (line 82); a nil argument panics there.
\<close>

definition updateBranchCount ::
  "db_handle \<Rightarrow> 64 word \<Rightarrow> 32 word option \<Rightarrow> world \<Rightarrow> error option outcome \<times> world" where
  "updateBranchCount db retailerID branchCount w =
     (case db of
        NilDB \<Rightarrow> (Panic NilDereference, w)
      | OpenDB \<Rightarrow>
          (case db_take retailerID w of
             (Inl err, w1) \<Rightarrow>
               (if err = ErrRecordNotFound
                then (Return None, logf (LogNotFound retailerID) w1)
                else (Return (Some err), w1))
           | (Inr merchant, w1) \<Rightarrow>
               (case BranchCount merchant of
                  None \<Rightarrow>
                    (case branchCount of
                       None \<Rightarrow> (Panic NilDereference, w1)
                     | Some v \<Rightarrow>
                         (case db_update retailerID v (logf (LogUpdate v) w1) of
                            (Some err, w2) \<Rightarrow> (Return (Some err), w2)
                          | (None, w2) \<Rightarrow> (Return None, w2)))
                | Some c \<Rightarrow> (Return None, logf (LogAlreadySet c) w1))))"

section \<open>The record source\<close>

text \<open>
  \<^verbatim>\<open>strconv.ParseInt(s, 10, 64)\<close> of the Go standard library. \<open>parseUint\<close> walks the
  bytes: a byte that is no decimal digit is a syntax error, a value that leaves 64
  unsigned bits is a range error. \<open>parseInt_val\<close> strips one sign and checks the signed
  range; \<open>ParseInt\<close> is the \<^verbatim>\<open>int64\<close> it returns.
\<close>

definition digit_of :: "char \<Rightarrow> int option" where
  "digit_of c = (let n = (of_char c :: int) in if 48 \<le> n \<and> n \<le> 57 then Some (n - 48) else None)"

fun parseUint_loop :: "int \<Rightarrow> string \<Rightarrow> error + int" where
  "parseUint_loop n [] = Inr n"
| "parseUint_loop n (c # cs) =
     (case digit_of c of
        None \<Rightarrow> Inl ErrSyntax
      | Some d \<Rightarrow> (if n * 10 + d \<ge> 2 ^ 64 then Inl ErrRange else parseUint_loop (n * 10 + d) cs))"

definition parseUint :: "string \<Rightarrow> error + int" where
  "parseUint s = (if s = [] then Inl ErrSyntax else parseUint_loop 0 s)"

definition parseInt_val :: "string \<Rightarrow> error + int" where
  "parseInt_val s =
     (case s of
        [] \<Rightarrow> Inl ErrSyntax
      | c # cs \<Rightarrow>
          (let neg = (c = CHR ''-'');
               body = (if c = CHR ''+'' \<or> c = CHR ''-'' then cs else s)
           in case parseUint body of
                Inl e \<Rightarrow> Inl e
              | Inr un \<Rightarrow>
                  (if \<not> neg \<and> un \<ge> 2 ^ 63 then Inl ErrRange
                   else if neg \<and> un > 2 ^ 63 then Inl ErrRange
                   else Inr (if neg then - un else un))))"

definition ParseInt :: "string \<Rightarrow> error + 64 word" where
  "ParseInt s = (case parseInt_val s of Inl e \<Rightarrow> Inl e | Inr v \<Rightarrow> Inr (word_of_int v))"

text \<open>
  The input file as \<^verbatim>\<open>encoding/csv\<close> sees it: each line already split into fields, or
  a line on which reading fails. \<open>reader_Read\<close> is \<^verbatim>\<open>reader.Read()\<close> with the default
  \<^verbatim>\<open>FieldsPerRecord = 0\<close>: the first record fixes the number of fields, and a later
  record of another length is \<^verbatim>\<open>ErrFieldCount\<close>.
\<close>

datatype raw_line = Fields "string list" | Broken

datatype read_result = EOF | ReadError error | Line "string list"

fun reader_Read :: "nat \<Rightarrow> raw_line list \<Rightarrow> read_result \<times> nat \<times> raw_line list" where
  "reader_Read n [] = (EOF, n, [])"
| "reader_Read n (Broken # rest) = (ReadError ErrRead, n, rest)"
| "reader_Read n (Fields fs # rest) =
     (if n > 0 then (if length fs \<noteq> n then ReadError ErrFieldCount else Line fs, n, rest)
      else (Line fs, length fs, rest))"

text \<open>Go's \<^verbatim>\<open>line[i]\<close>: out of range is a run-time panic.\<close>

definition index :: "'a list \<Rightarrow> nat \<Rightarrow> 'a option" where
  "index xs i = (if i < length xs then Some (xs ! i) else None)"

text \<open>
  One turn of the loop of \<^verbatim>\<open>fileLoader\<close> (lines 127 to 153) up to the send: it breaks
  at end of input, returns an error, panics, or has a record to send together with the
  reader's new state. \<^verbatim>\<open>int32(branchCountInt64)\<close> keeps the low 32 bits. \<open>read_record\<close>
  gives the turn's result and the lines it logs; \<open>loop_body\<close> writes them to the log.
\<close>

datatype iter = Break | Fail error | Crash panic | Send Merchant nat "raw_line list"

definition read_record :: "nat \<Rightarrow> raw_line list \<Rightarrow> iter \<times> log_entry list" where
  "read_record n rest =
     (case reader_Read n rest of
        (EOF, _, _) \<Rightarrow> (Break, [])
      | (ReadError e, _, _) \<Rightarrow> (Fail e, [])
      | (Line line, n', rest') \<Rightarrow>
          (case index line 0 of
             None \<Rightarrow> (Crash IndexOutOfRange, [])
           | Some f0 \<Rightarrow>
               (case ParseInt f0 of
                  Inl e \<Rightarrow> (Fail e, [LogParseRetailerID e])
                | Inr retailerID \<Rightarrow>
                    (case index line 1 of
                       None \<Rightarrow> (Crash IndexOutOfRange, [])
                     | Some f1 \<Rightarrow>
                         (case ParseInt f1 of
                            Inl e \<Rightarrow> (Fail e, [LogParseBranchCount e])
                          | Inr branchCountInt64 \<Rightarrow>
                              (Send \<lparr>RetailerID = retailerID,
                                     BranchCount = Some (ucast branchCountInt64 :: 32 word),
                                     ExpireAt = 0\<rparr> n' rest', []))))))"

definition loop_body :: "nat \<Rightarrow> raw_line list \<Rightarrow> world \<Rightarrow> iter \<times> world" where
  "loop_body n rest w =
     (case read_record n rest of (it, ls) \<Rightarrow> (it, w\<lparr>logs := logs w @ ls\<rparr>))"

section \<open>The pipeline, one schedule\<close>

text \<open>
  \<^verbatim>\<open>newDB\<close> (lines 53 to 66): opening or configuring the connection may fail, and then
  the handle is nil.
\<close>

datatype conn_env = OpenFails | ConfigFails | ConnOK

definition newDB :: "conn_env \<Rightarrow> db_handle \<times> error option" where
  "newDB env =
     (case env of
        OpenFails \<Rightarrow> (NilDB, Some ErrOpenDB)
      | ConfigFails \<Rightarrow> (NilDB, Some ErrConfigDB)
      | ConnOK \<Rightarrow> (OpenDB, None))"

text \<open>
  The consumer's branch for a received record (lines 173 to 176): it logs, calls the
  gateway and logs an error the gateway returns. A panic ends the process.
\<close>

definition call_gateway :: "db_handle \<Rightarrow> Merchant \<Rightarrow> world \<Rightarrow> unit outcome \<times> world" where
  "call_gateway db merchant w =
     (case updateBranchCount db (RetailerID merchant) (BranchCount merchant) w of
        (Panic p, w1) \<Rightarrow> (Panic p, w1)
      | (Return None, w1) \<Rightarrow> (Return (), w1)
      | (Return (Some err), w1) \<Rightarrow> (Return (), logf (LogGatewayError err) w1))"

definition consume :: "db_handle \<Rightarrow> Merchant \<Rightarrow> world \<Rightarrow> unit outcome \<times> world" where
  "consume db merchant w = call_gateway db merchant (logf (LogHandle (RetailerID merchant)) w)"

lemma reader_Read_shorter:
  "reader_Read n rest = (Line line, n', rest') \<Longrightarrow> length rest' < length rest"
  by (induction n rest rule: reader_Read.induct) (auto split: if_splits)

lemma read_record_shorter:
  "read_record n rest = (Send m n' rest', ls) \<Longrightarrow> length rest' < length rest"
  unfolding read_record_def
  by (auto split: prod.splits read_result.splits option.splits sum.splits
           dest: reader_Read_shorter)

lemma fst_read_record_shorter:
  "fst (read_record n rest) = Send m n' rest' \<Longrightarrow> length rest' < length rest"
  by (cases "read_record n rest") (auto dest: read_record_shorter)

lemma loop_body_shorter:
  "loop_body n rest w = (Send m n' rest', w1) \<Longrightarrow> length rest' < length rest"
  unfolding loop_body_def
  by (auto split: prod.splits dest: read_record_shorter)

text \<open>
  The records \<^verbatim>\<open>fileLoader\<close> sends on the channel, in order, and what it returns after
  the last of them.
\<close>

function records :: "nat \<Rightarrow> raw_line list \<Rightarrow> Merchant list" where
  "records n rest =
     (case fst (read_record n rest) of
        Send m n' rest' \<Rightarrow> m # records n' rest'
      | _ \<Rightarrow> [])"
  by pat_completeness auto
termination
  by (relation "measure (\<lambda>(n, rest). length rest)")
     (auto dest: fst_read_record_shorter)

function loader_result :: "nat \<Rightarrow> raw_line list \<Rightarrow> error option outcome" where
  "loader_result n rest =
     (case fst (read_record n rest) of
        Break \<Rightarrow> Return None
      | Fail e \<Rightarrow> Return (Some e)
      | Crash p \<Rightarrow> Panic p
      | Send m n' rest' \<Rightarrow> loader_result n' rest')"
  by pat_completeness auto
termination
  by (relation "measure (\<lambda>(n, rest). length rest)")
     (auto dest: fst_read_record_shorter)

text \<open>
  The channel is unbuffered, so a send and its receive happen together. In this schedule
  the consumer handles the record it received before the producer reads the next line.
  The result is what \<^verbatim>\<open>fileLoader\<close> returns, or the panic that ended the process.
\<close>

function pipeline_loop ::
  "db_handle \<Rightarrow> nat \<Rightarrow> raw_line list \<Rightarrow> world \<Rightarrow> error option outcome \<times> world" where
  "pipeline_loop db n rest w =
     (case loop_body n rest w of
        (Break, w1) \<Rightarrow> (Return None, w1)
      | (Fail e, w1) \<Rightarrow> (Return (Some e), w1)
      | (Crash p, w1) \<Rightarrow> (Panic p, w1)
      | (Send m n' rest', w1) \<Rightarrow>
          (case consume db m w1 of
             (Panic p, w2) \<Rightarrow> (Panic p, w2)
           | (Return u, w2) \<Rightarrow> pipeline_loop db n' rest' w2))"
  by pat_completeness auto
termination
  by (relation "measure (\<lambda>(db, n, rest, w). length rest)")
     (auto dest: loop_body_shorter [OF sym])

declare records.simps [simp del] loader_result.simps [simp del] pipeline_loop.simps [simp del]

text \<open>
  \<^verbatim>\<open>handleMerchant\<close> (lines 158 to 199) in that schedule. An error of \<^verbatim>\<open>newDB\<close> is
  logged and the function goes on with the nil handle (lines 159 to 162).
\<close>

datatype input_file = Missing | Opened "raw_line list"

definition handleMerchant :: "conn_env \<Rightarrow> input_file \<Rightarrow> world \<Rightarrow> unit outcome \<times> world" where
  "handleMerchant env f w =
     (case newDB env of
        (db, err) \<Rightarrow>
          (let w1 = (case err of None \<Rightarrow> w | Some e \<Rightarrow> logf (LogNewDBError e) w)
           in case f of
                Missing \<Rightarrow> (Return (), logf LogDone (logf (LogLoadError ErrOpenFile) w1))
              | Opened lines \<Rightarrow>
                  (case pipeline_loop db 0 lines w1 of
                     (Panic p, w2) \<Rightarrow> (Panic p, w2)
                   | (Return None, w2) \<Rightarrow> (Return (), logf LogDone w2)
                   | (Return (Some e), w2) \<Rightarrow>
                       (Return (), logf LogDone (logf (LogLoadError e) w2)))))"

section \<open>Properties of the store gateway\<close>

text \<open>The coming \<open>n\<close> round trips to the server succeed.\<close>

definition answers :: "nat \<Rightarrow> world \<Rightarrow> bool" where
  "answers n w = (True \<notin> set (take n (faults w)))"

text \<open>The store of the specification's example: row 42 unset, row 43 set to 3.\<close>

definition store0 :: world where
  "store0 =
     \<lparr>rows = [\<lparr>RetailerID = 42, BranchCount = None, ExpireAt = 5\<rparr>,
              \<lparr>RetailerID = 43, BranchCount = Some 3, ExpireAt = 6\<rparr>],
      faults = [], issued = [], logs = []\<rparr>"

lemma find_set_branch:
  "find (\<lambda>r. RetailerID r = k) rs = Some r \<Longrightarrow>
   find (\<lambda>r. RetailerID r = k) (map (set_branch k v) rs) = Some (r\<lparr>BranchCount := Some v\<rparr>)"
  by (induction rs) (auto simp: set_branch_def)

lemma set_branch_columns:
  "RetailerID (set_branch k v r) = RetailerID r \<and> ExpireAt (set_branch k v r) = ExpireAt r"
  by (simp add: set_branch_def)

text \<open>
  C1. When the lookup finds a row whose branch count is unset and the store answers
  both round trips, \<^verbatim>\<open>updateBranchCount\<close> issues the lookup and exactly one update, which
  sets \<^verbatim>\<open>branch_count\<close> of that key to the record's value and leaves the other columns
  alone, and it returns nil. When the row's branch count is set and the store answers
  the lookup, only the lookup is issued, no row changes and it returns nil, whatever
  the record's value.
\<close>

theorem updateBranchCount_conditional_write:
  "find (\<lambda>r. RetailerID r = k) (rows w) = Some r \<Longrightarrow>
   (BranchCount r = None \<and> answers 2 w \<longrightarrow>
      fst (updateBranchCount OpenDB k (Some v) w) = Return None \<and>
      issued (snd (updateBranchCount OpenDB k (Some v) w)) = issued w @ [Select k, Update k v] \<and>
      rows (snd (updateBranchCount OpenDB k (Some v) w)) = map (set_branch k v) (rows w) \<and>
      find (\<lambda>r. RetailerID r = k) (rows (snd (updateBranchCount OpenDB k (Some v) w)))
        = Some (r\<lparr>BranchCount := Some v\<rparr>) \<and>
      map RetailerID (rows (snd (updateBranchCount OpenDB k (Some v) w))) = map RetailerID (rows w) \<and>
      map ExpireAt (rows (snd (updateBranchCount OpenDB k (Some v) w))) = map ExpireAt (rows w)) \<and>
   (BranchCount r \<noteq> None \<and> answers 1 w \<longrightarrow>
      fst (updateBranchCount OpenDB k b w) = Return None \<and>
      issued (snd (updateBranchCount OpenDB k b w)) = issued w @ [Select k] \<and>
      rows (snd (updateBranchCount OpenDB k b w)) = rows w)"
  by (cases "faults w"; cases "tl (faults w)")
     (auto simp: updateBranchCount_def db_take_def db_update_def round_trip_def logf_def
           answers_def find_set_branch set_branch_columns numeral_2_eq_2 split: list.splits)

theorem updateBranchCount_conditional_write_witness:
  "find (\<lambda>r. RetailerID r = 42) (rows store0)
     = Some \<lparr>RetailerID = 42, BranchCount = None, ExpireAt = 5\<rparr> \<and>
   answers 2 store0 \<and>
   fst (updateBranchCount OpenDB 42 (Some 7) store0) = Return None \<and>
   issued (snd (updateBranchCount OpenDB 42 (Some 7) store0)) = [Select 42, Update 42 7] \<and>
   rows (snd (updateBranchCount OpenDB 42 (Some 7) store0))
     = [\<lparr>RetailerID = 42, BranchCount = Some 7, ExpireAt = 5\<rparr>,
        \<lparr>RetailerID = 43, BranchCount = Some 3, ExpireAt = 6\<rparr>] \<and>
   find (\<lambda>r. RetailerID r = 43) (rows store0)
     = Some \<lparr>RetailerID = 43, BranchCount = Some 3, ExpireAt = 6\<rparr> \<and>
   fst (updateBranchCount OpenDB 43 (Some 9) store0) = Return None \<and>
   issued (snd (updateBranchCount OpenDB 43 (Some 9) store0)) = [Select 43] \<and>
   rows (snd (updateBranchCount OpenDB 43 (Some 9) store0)) = rows store0"
  using updateBranchCount_conditional_write
          [of 42 store0 "\<lparr>RetailerID = 42, BranchCount = None, ExpireAt = 5\<rparr>" 7 None]
        updateBranchCount_conditional_write
          [of 43 store0 "\<lparr>RetailerID = 43, BranchCount = Some 3, ExpireAt = 6\<rparr>" 0 "Some 9"]
  by (simp add: store0_def answers_def set_branch_def)

text \<open>
  C6. When no row has the record's key, \<^verbatim>\<open>updateBranchCount\<close> issues the lookup and no
  update, changes no row, and the consumer's call returns normally, so the loop goes
  on; when the store answers the lookup, \<^verbatim>\<open>updateBranchCount\<close> returns nil.
\<close>

theorem updateBranchCount_not_found:
  "find (\<lambda>r. RetailerID r = k) (rows w) = None \<Longrightarrow>
     rows (snd (updateBranchCount OpenDB k b w)) = rows w \<and>
     issued (snd (updateBranchCount OpenDB k b w)) = issued w @ [Select k] \<and>
     (answers 1 w \<longrightarrow>
        fst (updateBranchCount OpenDB k b w) = Return None \<and>
        logs (snd (updateBranchCount OpenDB k b w)) = logs w @ [LogNotFound k]) \<and>
     fst (call_gateway OpenDB \<lparr>RetailerID = k, BranchCount = b, ExpireAt = t\<rparr> w) = Return ()"
  by (cases "faults w")
     (auto simp: updateBranchCount_def call_gateway_def db_take_def round_trip_def logf_def
           answers_def split: list.splits bool.splits)

theorem updateBranchCount_not_found_witness:
  "find (\<lambda>r. RetailerID r = 99) (rows store0) = None \<and>
   answers 1 store0 \<and>
   rows (snd (updateBranchCount OpenDB 99 (Some 5) store0)) = rows store0 \<and>
   issued (snd (updateBranchCount OpenDB 99 (Some 5) store0)) = [Select 99] \<and>
   fst (updateBranchCount OpenDB 99 (Some 5) store0) = Return None \<and>
   logs (snd (updateBranchCount OpenDB 99 (Some 5) store0)) = [LogNotFound 99] \<and>
   fst (call_gateway OpenDB \<lparr>RetailerID = 99, BranchCount = Some 5, ExpireAt = 0\<rparr> store0)
     = Return ()"
  using updateBranchCount_not_found [of 99 store0 "Some 5" 0]
  by (simp add: store0_def answers_def)

section \<open>Properties of the record source\<close>

text \<open>The decimal numeral of an integer, as a line of the input file holds it.\<close>

definition digit_char :: "nat \<Rightarrow> char" where
  "digit_char d = ''0123456789'' ! d"

fun dec_nat :: "nat \<Rightarrow> string" where
  "dec_nat n = (if n < 10 then [digit_char n] else dec_nat (n div 10) @ [digit_char (n mod 10)])"

declare dec_nat.simps [simp del]

definition dec_int :: "int \<Rightarrow> string" where
  "dec_int v = (if v < 0 then CHR ''-'' # dec_nat (nat (- v)) else dec_nat (nat v))"

lemma of_char_digit_char: "d < 10 \<Longrightarrow> (of_char (digit_char d) :: int) = 48 + int d"
proof -
  assume "d < 10"
  then have "d = 0 \<or> d = 1 \<or> d = 2 \<or> d = 3 \<or> d = 4 \<or> d = 5 \<or> d = 6 \<or> d = 7 \<or> d = 8 \<or> d = 9"
    by arith
  then show ?thesis by (auto simp: digit_char_def)
qed

lemma digit_of_digit_char: "d < 10 \<Longrightarrow> digit_of (digit_char d) = Some (int d)"
  by (simp add: digit_of_def of_char_digit_char Let_def)

lemma digit_char_not_sign: "d < 10 \<Longrightarrow> digit_char d \<noteq> CHR ''-'' \<and> digit_char d \<noteq> CHR ''+''"
proof -
  assume d: "d < 10"
  have "(of_char (digit_char d) :: int) \<noteq> of_char CHR ''-''"
       "(of_char (digit_char d) :: int) \<noteq> of_char CHR ''+''"
    using d by (simp_all add: of_char_digit_char)
  then show ?thesis by auto
qed

lemma parseUint_loop_snoc:
  "parseUint_loop acc (s @ [c]) =
     (case parseUint_loop acc s of
        Inl e \<Rightarrow> Inl e
      | Inr m \<Rightarrow>
          (case digit_of c of
             None \<Rightarrow> Inl ErrSyntax
           | Some d \<Rightarrow> (if m * 10 + d \<ge> 2 ^ 64 then Inl ErrRange else Inr (m * 10 + d))))"
  by (induction s arbitrary: acc) (auto split: option.splits)

lemma dec_nat_snoc: "\<not> n < 10 \<Longrightarrow> dec_nat n = dec_nat (n div 10) @ [digit_char (n mod 10)]"
  by (subst dec_nat.simps) simp

lemma div_mod_10_int: "int (n div 10) * 10 + int (n mod 10) = int n"
  by (simp add: zdiv_int zmod_int)

lemma parseUint_loop_dec_nat:
  "n < 2 ^ 64 \<Longrightarrow> parseUint_loop 0 (dec_nat n) = Inr (int n)"
proof (induction n rule: dec_nat.induct)
  case (1 n)
  show ?case
  proof (cases "n < 10")
    case True
    then show ?thesis using "1.prems" by (simp add: dec_nat.simps [of n] digit_of_digit_char)
  next
    case False
    have lt: "n div 10 < 2 ^ 64" using "1.prems" by (simp add: less_mult_imp_div_less)
    have ih: "parseUint_loop 0 (dec_nat (n div 10)) = Inr (int (n div 10))"
      using "1.IH" False lt by simp
    have b: "int n < 2 ^ 64" using "1.prems" by (simp flip: of_nat_less_iff)
    show ?thesis
      using b by (simp only: dec_nat_snoc [OF False] parseUint_loop_snoc ih)
                 (simp add: digit_of_digit_char div_mod_10_int)
  qed
qed

lemma parseUint_loop_dec_nat_range:
  "n \<ge> 2 ^ 64 \<Longrightarrow> parseUint_loop 0 (dec_nat n) = Inl ErrRange"
proof (induction n rule: dec_nat.induct)
  case (1 n)
  have big: "\<not> n < 10" using "1.prems" by simp
  have b: "int n \<ge> 2 ^ 64" using "1.prems" by (simp flip: of_nat_le_iff)
  show ?case
  proof (cases "n div 10 < 2 ^ 64")
    case True
    then have "parseUint_loop 0 (dec_nat (n div 10)) = Inr (int (n div 10))"
      by (rule parseUint_loop_dec_nat)
    then show ?thesis
      using b by (simp only: dec_nat_snoc [OF big] parseUint_loop_snoc)
                 (simp add: digit_of_digit_char div_mod_10_int)
  next
    case False
    then have "parseUint_loop 0 (dec_nat (n div 10)) = Inl ErrRange"
      using "1.IH" big by simp
    then show ?thesis by (simp only: dec_nat_snoc [OF big] parseUint_loop_snoc) simp
  qed
qed

lemma dec_nat_nonempty: "dec_nat n \<noteq> []"
  by (subst dec_nat.simps) simp

lemma hd_dec_nat: "hd (dec_nat n) \<noteq> CHR ''-'' \<and> hd (dec_nat n) \<noteq> CHR ''+''"
proof (induction n rule: dec_nat.induct)
  case (1 n)
  show ?case
  proof (cases "n < 10")
    case True
    then show ?thesis using digit_char_not_sign [of n] by (simp add: dec_nat.simps [of n])
  next
    case False
    then have "hd (dec_nat n) = hd (dec_nat (n div 10))"
      by (subst dec_nat.simps) (simp add: dec_nat_nonempty)
    then show ?thesis using "1.IH" False by simp
  qed
qed

lemma parseUint_dec_nat:
  "parseUint (dec_nat n) = (if n < 2 ^ 64 then Inr (int n) else Inl ErrRange)"
  by (simp add: parseUint_def dec_nat_nonempty parseUint_loop_dec_nat
        parseUint_loop_dec_nat_range not_less)

lemma parseInt_val_dec_int:
  "parseInt_val (dec_int v) = (if - (2 ^ 63) \<le> v \<and> v < 2 ^ 63 then Inr v else Inl ErrRange)"
proof (cases "v < 0")
  case True
  define n where "n = nat (- v)"
  have nv: "int n = - v" using True by (simp add: n_def)
  have s: "dec_int v = CHR ''-'' # dec_nat n" using True by (simp add: dec_int_def n_def)
  have lt: "n < 2 ^ 64 \<longleftrightarrow> int n < 2 ^ 64" by (simp flip: of_nat_less_iff)
  show ?thesis
    using True nv by (simp add: s parseInt_val_def parseUint_dec_nat lt)
next
  case False
  define n where "n = nat v"
  have nv: "int n = v" using False by (simp add: n_def)
  have s: "dec_int v = dec_nat n" using False by (simp add: dec_int_def n_def)
  obtain c cs where ccs: "dec_nat n = c # cs"
    using dec_nat_nonempty [of n] by (cases "dec_nat n") auto
  have c: "c \<noteq> CHR ''-''" "c \<noteq> CHR ''+''" using hd_dec_nat [of n] by (simp_all add: ccs)
  have lt: "n < 2 ^ 64 \<longleftrightarrow> int n < 2 ^ 64" by (simp flip: of_nat_less_iff)
  have p: "parseUint (c # cs) = (if n < 2 ^ 64 then Inr (int n) else Inl ErrRange)"
    using parseUint_dec_nat [of n] by (simp add: ccs)
  show ?thesis
    using False nv c by (simp add: s ccs parseInt_val_def p lt)
qed

lemma ParseInt_dec_int:
  "ParseInt (dec_int v) =
     (if - (2 ^ 63) \<le> v \<and> v < 2 ^ 63 then Inr (word_of_int v) else Inl ErrRange)"
  by (simp add: ParseInt_def parseInt_val_dec_int)

lemma ucast_of_int_32: "(ucast (word_of_int v :: 64 word) :: 32 word) = word_of_int v"
  by (rule bit_word_eqI) (auto simp: bit_simps)

lemma sint_of_int_32: "sint (word_of_int v :: 32 word) mod 2 ^ 32 = v mod 2 ^ 32"
proof -
  have "take_bit 32 (sint (word_of_int v :: 32 word)) = take_bit 32 v"
    by (simp add: sint_sbintrunc' take_bit_signed_take_bit)
  then show ?thesis by (simp add: take_bit_eq_mod)
qed

lemma sint_32_range: "- (2 ^ 31) \<le> sint (x :: 32 word) \<and> sint x < 2 ^ 31"
  using sint_ge [of x] sint_lt [of x] by simp

text \<open>
  C9, as the code has it. Field 1 is parsed with bit size 64 and narrowed to 32 bits: a
  line whose field 1 is the numeral of an integer \<open>v\<close> that fits \<^verbatim>\<open>int64\<close> gives a record
  whose branch count is \<open>v\<close> reduced modulo \<open>2 ^ 32\<close> in two's complement, also when \<open>v\<close>
  is outside the \<^verbatim>\<open>int32\<close> range; an integer outside the \<^verbatim>\<open>int64\<close> range makes the turn
  fail with a range error and gives no record.
\<close>

theorem fileLoader_narrows_branch_count:
  "ParseInt f0 = Inr k \<Longrightarrow> n = 0 \<or> n = length fs + 2 \<Longrightarrow>
   fst (loop_body n (Fields (f0 # dec_int v # fs) # rest) w) =
     (if - (2 ^ 63) \<le> v \<and> v < 2 ^ 63
      then Send \<lparr>RetailerID = k, BranchCount = Some (word_of_int v), ExpireAt = 0\<rparr>
             (length fs + 2) rest
      else Fail ErrRange) \<and>
   uint (word_of_int v :: 32 word) = v mod 2 ^ 32 \<and>
   sint (word_of_int v :: 32 word) mod 2 ^ 32 = v mod 2 ^ 32 \<and>
   - (2 ^ 31) \<le> sint (word_of_int v :: 32 word) \<and> sint (word_of_int v :: 32 word) < 2 ^ 31"
proof (intro conjI)
  assume k: "ParseInt f0 = Inr k" and n: "n = 0 \<or> n = length fs + 2"
  show "fst (loop_body n (Fields (f0 # dec_int v # fs) # rest) w) =
     (if - (2 ^ 63) \<le> v \<and> v < 2 ^ 63
      then Send \<lparr>RetailerID = k, BranchCount = Some (word_of_int v), ExpireAt = 0\<rparr>
             (length fs + 2) rest
      else Fail ErrRange)"
    using k n
    by (auto simp: loop_body_def read_record_def index_def ParseInt_dec_int ucast_of_int_32)
  show "uint (word_of_int v :: 32 word) = v mod 2 ^ 32"
    by (simp add: uint_word_of_int take_bit_eq_mod)
  show "sint (word_of_int v :: 32 word) mod 2 ^ 32 = v mod 2 ^ 32"
    by (rule sint_of_int_32)
  show "- (2 ^ 31) \<le> sint (word_of_int v :: 32 word)" "sint (word_of_int v :: 32 word) < 2 ^ 31"
    using sint_32_range [of "word_of_int v"] by simp_all
qed

theorem fileLoader_narrows_branch_count_witness:
  "ParseInt ''42'' = Inr 42 \<and>
   dec_int 4294967303 = ''4294967303'' \<and>
   fst (loop_body 0 [Fields [''42'', ''4294967303'']] store0) =
     Send \<lparr>RetailerID = 42, BranchCount = Some 7, ExpireAt = 0\<rparr> 2 [] \<and>
   sint (7 :: 32 word) mod 2 ^ 32 = 4294967303 mod 2 ^ 32"
proof -
  have p: "ParseInt ''42'' = Inr 42"
    by (simp add: ParseInt_def parseInt_val_def parseUint_def digit_of_def)
  have d: "dec_int 4294967303 = ''4294967303''"
    by (simp add: dec_int_def digit_char_def dec_nat.simps)
  have w: "(word_of_int 4294967303 :: 32 word) = 7" by simp
  show ?thesis
    using fileLoader_narrows_branch_count [OF p, of 0 "[]" 4294967303 "[]" store0] p d w
    by simp
qed

text \<open>
  C9 as stated fails: \<open>2 ^ 63\<close> is outside the \<^verbatim>\<open>int32\<close> range, and the line that holds
  it is rejected with a range error instead of giving a reduced branch count.
\<close>

theorem fileLoader_narrowing_counterexample:
  "\<not> (- (2 ^ 31) \<le> (9223372036854775808 :: int) \<and> (9223372036854775808 :: int) < 2 ^ 31) \<and>
   dec_int 9223372036854775808 = ''9223372036854775808'' \<and>
   fst (loop_body 0 [Fields [''1'', ''9223372036854775808'']] store0) = Fail ErrRange"
  by (simp add: loop_body_def read_record_def index_def ParseInt_def parseInt_val_def
        parseUint_def digit_of_def dec_int_def digit_char_def dec_nat.simps)

text \<open>
  C10. \<^verbatim>\<open>line[1]\<close> is read without a bounds check: when the first line of the file has
  one field and that field parses, the turn panics with an index out of range, and so
  does \<^verbatim>\<open>handleMerchant\<close>, before any statement reaches the store.
\<close>

theorem fileLoader_one_field_panics:
  "ParseInt f0 = Inr k \<Longrightarrow>
   loop_body 0 (Fields [f0] # rest) w = (Crash IndexOutOfRange, w) \<and>
   loader_result 0 (Fields [f0] # rest) = Panic IndexOutOfRange \<and>
   fst (handleMerchant env (Opened (Fields [f0] # rest)) w) = Panic IndexOutOfRange \<and>
   rows (snd (handleMerchant env (Opened (Fields [f0] # rest)) w)) = rows w \<and>
   issued (snd (handleMerchant env (Opened (Fields [f0] # rest)) w)) = issued w"
  by (cases env)
     (simp_all add: handleMerchant_def newDB_def loop_body_def read_record_def index_def logf_def
        loader_result.simps [of 0] pipeline_loop.simps [of _ 0])

theorem fileLoader_one_field_panics_witness:
  "ParseInt ''42'' = Inr 42 \<and>
   loop_body 0 [Fields [''42'']] store0 = (Crash IndexOutOfRange, store0) \<and>
   loader_result 0 [Fields [''42'']] = Panic IndexOutOfRange \<and>
   fst (handleMerchant ConnOK (Opened [Fields [''42'']]) store0) = Panic IndexOutOfRange"
  using fileLoader_one_field_panics [of "''42''" 42 "[]" store0 ConnOK]
  by (simp add: ParseInt_def parseInt_val_def parseUint_def digit_of_def)

section \<open>Failure of the store connection\<close>

text \<open>
  C4. When \<^verbatim>\<open>newDB\<close> fails, \<^verbatim>\<open>handleMerchant\<close> logs the error and goes on with the nil
  handle: with the one-line file \<^verbatim>\<open>42,7\<close> the record is received by the consumer, which
  logs it and calls \<^verbatim>\<open>updateBranchCount\<close>, and the call panics on the nil handle.
\<close>

theorem handleMerchant_newDB_failure_not_fatal:
  "handleMerchant OpenFails (Opened [Fields [''42'', ''7'']]) store0 =
     (Panic NilDereference, store0\<lparr>logs := [LogNewDBError ErrOpenDB, LogHandle 42]\<rparr>)"
  by (simp add: handleMerchant_def newDB_def loop_body_def read_record_def index_def
        ParseInt_def parseInt_val_def parseUint_def digit_of_def consume_def call_gateway_def
        updateBranchCount_def logf_def store0_def pipeline_loop.simps [of _ 0])

section \<open>The rows of the store over a run\<close>

text \<open>
  The only change a gateway call makes to the table: the update of the rows with one
  key, issued after the lookup returned a row of that key whose branch count is NULL.
\<close>

definition row_step :: "Merchant list \<Rightarrow> Merchant list \<Rightarrow> bool" where
  "row_step rs rs' =
     (\<exists>k v r. find (\<lambda>r. RetailerID r = k) rs = Some r \<and> BranchCount r = None \<and>
              rs' = map (set_branch k v) rs)"

lemma updateBranchCount_rows:
  "rows (snd (updateBranchCount db k b w)) = rows w \<or>
   row_step (rows w) (rows (snd (updateBranchCount db k b w)))"
  by (cases "faults w"; cases "tl (faults w)")
     (auto simp: updateBranchCount_def db_take_def db_update_def round_trip_def logf_def
           row_step_def
           split: list.splits bool.splits db_handle.splits option.splits if_splits)

lemma loop_body_frame:
  "fst (loop_body n rest w) = fst (read_record n rest) \<and>
   rows (snd (loop_body n rest w)) = rows w \<and>
   faults (snd (loop_body n rest w)) = faults w \<and>
   issued (snd (loop_body n rest w)) = issued w"
  by (simp add: loop_body_def split: prod.splits)

lemma consume_rows:
  "rows (snd (consume db m w)) = rows w \<or> row_step (rows w) (rows (snd (consume db m w)))"
proof -
  let ?w0 = "logf (LogHandle (RetailerID m)) w"
  let ?u = "updateBranchCount db (RetailerID m) (BranchCount m) ?w0"
  have r: "rows (snd (consume db m w)) = rows (snd ?u)"
    by (cases ?u) (auto simp: consume_def call_gateway_def logf_def split: outcome.splits option.splits)
  have "rows ?w0 = rows w" by (simp add: logf_def)
  then show ?thesis using updateBranchCount_rows [of db "RetailerID m" "BranchCount m" ?w0] r
    by simp
qed

lemma pipeline_loop_rows:
  "row_step\<^sup>*\<^sup>* (rows w) (rows (snd (pipeline_loop db n rest w)))"
proof (induction db n rest w rule: pipeline_loop.induct)
  case (1 db n rest w)
  obtain it w1 where lb: "loop_body n rest w = (it, w1)" by (cases "loop_body n rest w")
  have w1: "rows w1 = rows w" using loop_body_frame [of n rest w] lb by simp
  show ?case
  proof (cases it)
    case (Send m n' rest')
    obtain out w2 where c: "consume db m w1 = (out, w2)" by (cases "consume db m w1")
    have s: "row_step\<^sup>*\<^sup>* (rows w) (rows w2)"
      using consume_rows [of db m w1] c w1 by auto
    show ?thesis
    proof (cases out)
      case (Return u)
      have "row_step\<^sup>*\<^sup>* (rows w2) (rows (snd (pipeline_loop db n' rest' w2)))"
        using "1.IH" [OF lb [symmetric] Send c [symmetric] Return] .
      then show ?thesis
        using s lb Send c Return by (subst pipeline_loop.simps) simp
    next
      case (Panic p)
      then show ?thesis using s lb Send c by (subst pipeline_loop.simps) simp
    qed
  qed (use lb w1 in \<open>subst pipeline_loop.simps, simp\<close>)+
qed


lemma handleMerchant_rows:
  "row_step\<^sup>*\<^sup>* (rows w) (rows (snd (handleMerchant env f w)))"
proof (cases f)
  case Missing
  then show ?thesis
    by (simp add: handleMerchant_def logf_def split: prod.splits option.splits)
next
  case (Opened lines)
  obtain db err where nd: "newDB env = (db, err)" by (cases "newDB env")
  define w1 where "w1 = (case err of None \<Rightarrow> w | Some e \<Rightarrow> logf (LogNewDBError e) w)"
  have w1: "rows w1 = rows w" by (simp add: w1_def logf_def split: option.splits)
  have "rows (snd (handleMerchant env f w)) = rows (snd (pipeline_loop db 0 lines w1))"
    by (cases "pipeline_loop db 0 lines w1")
       (auto simp: handleMerchant_def nd Opened w1_def logf_def Let_def
             split: outcome.splits option.splits)
  then show ?thesis using pipeline_loop_rows [of w1 db 0 lines] w1 by simp
qed

text \<open>
  What a run may do to a row: \<open>row_stays\<close> keeps the key and the expiry and keeps a set
  branch count set; \<open>row_kept\<close> also keeps the value of a set branch count.
\<close>

definition row_kept :: "Merchant \<Rightarrow> Merchant \<Rightarrow> bool" where
  "row_kept r r' =
     (RetailerID r' = RetailerID r \<and> ExpireAt r' = ExpireAt r \<and>
      (case BranchCount r of None \<Rightarrow> True | Some c \<Rightarrow> BranchCount r' = Some c))"

definition row_stays :: "Merchant \<Rightarrow> Merchant \<Rightarrow> bool" where
  "row_stays r r' =
     (RetailerID r' = RetailerID r \<and> ExpireAt r' = ExpireAt r \<and>
      (case BranchCount r of None \<Rightarrow> True | Some c \<Rightarrow> BranchCount r' \<noteq> None))"

lemma find_unique:
  "distinct (map RetailerID rs) \<Longrightarrow> find (\<lambda>r. RetailerID r = k) rs = Some r \<Longrightarrow>
   x \<in> set rs \<Longrightarrow> RetailerID x = k \<Longrightarrow> x = r"
  by (induction rs) (auto split: if_splits)

lemma row_kept_refl: "list_all2 row_kept rs rs"
  by (simp add: list_all2_same row_kept_def split: option.splits)

lemma row_kept_trans:
  "list_all2 row_kept xs ys \<Longrightarrow> list_all2 row_kept ys zs \<Longrightarrow> list_all2 row_kept xs zs"
  by (rule list_all2_trans [of row_kept row_kept row_kept xs ys zs])
     (auto simp: row_kept_def split: option.splits)

lemma row_stays_refl: "list_all2 row_stays rs rs"
  by (simp add: list_all2_same row_stays_def split: option.splits)

lemma row_stays_trans:
  "list_all2 row_stays xs ys \<Longrightarrow> list_all2 row_stays ys zs \<Longrightarrow> list_all2 row_stays xs zs"
  by (rule list_all2_trans [of row_stays row_stays row_stays xs ys zs])
     (auto simp: row_stays_def split: option.splits)

lemma row_step_stays: "row_step rs rs' \<Longrightarrow> list_all2 row_stays rs rs'"
  by (auto simp: row_step_def list_all2_map2 list_all2_same row_stays_def set_branch_def
           split: option.splits)

lemma row_step_kept:
  "row_step rs rs' \<Longrightarrow> distinct (map RetailerID rs) \<Longrightarrow> list_all2 row_kept rs rs'"
proof -
  assume s: "row_step rs rs'" and d: "distinct (map RetailerID rs)"
  from s obtain k v r where f: "find (\<lambda>r. RetailerID r = k) rs = Some r"
    and n: "BranchCount r = None" and e: "rs' = map (set_branch k v) rs"
    by (auto simp: row_step_def)
  have "row_kept x (set_branch k v x)" if "x \<in> set rs" for x
  proof (cases "RetailerID x = k")
    case True
    then have "x = r" using find_unique [OF d f that] by simp
    then show ?thesis using n by (simp add: row_kept_def set_branch_def)
  next
    case False
    then show ?thesis by (simp add: row_kept_def set_branch_def split: option.splits)
  qed
  then show ?thesis by (simp add: e list_all2_map2 list_all2_same)
qed

lemma row_kept_keys: "list_all2 row_kept rs rs' \<Longrightarrow> map RetailerID rs' = map RetailerID rs"
  by (induction rule: list_all2_induct) (auto simp: row_kept_def)

lemma row_steps_stays: "row_step\<^sup>*\<^sup>* rs rs' \<Longrightarrow> list_all2 row_stays rs rs'"
  by (induction rule: rtranclp_induct)
     (auto intro: row_stays_refl row_stays_trans row_step_stays)

lemma row_steps_kept:
  "row_step\<^sup>*\<^sup>* rs rs' \<Longrightarrow> distinct (map RetailerID rs) \<Longrightarrow> list_all2 row_kept rs rs'"
proof (induction rule: rtranclp_induct)
  case base
  show ?case by (rule row_kept_refl)
next
  case (step y z)
  have k: "list_all2 row_kept rs y" using step by simp
  have "distinct (map RetailerID y)" using row_kept_keys [OF k] step.prems by simp
  then have "list_all2 row_kept y z" using step.hyps(2) by (rule row_step_kept [rotated])
  then show ?case using k by (rule row_kept_trans [rotated])
qed

text \<open>The input of the specification's example: the lines \<^verbatim>\<open>42,7\<close> and \<^verbatim>\<open>43,9\<close>.\<close>

definition file0 :: input_file where
  "file0 = Opened [Fields [''42'', ''7''], Fields [''43'', ''9'']]"

lemmas eval_defs =
  handleMerchant_def newDB_def loop_body_def read_record_def index_def ParseInt_def
  parseInt_val_def parseUint_def digit_of_def consume_def call_gateway_def
  updateBranchCount_def db_take_def db_update_def round_trip_def set_branch_def logf_def

lemmas loop_unfold =
  pipeline_loop.simps [of _ _ "[]"] pipeline_loop.simps [of _ _ "_ # _"]
  records.simps [of _ "[]"] records.simps [of _ "_ # _"]
  loader_result.simps [of _ "[]"] loader_result.simps [of _ "_ # _"]

lemma handleMerchant_example:
  "handleMerchant ConnOK file0 store0 =
     (Return (),
      \<lparr>rows = [\<lparr>RetailerID = 42, BranchCount = Some 7, ExpireAt = 5\<rparr>,
               \<lparr>RetailerID = 43, BranchCount = Some 3, ExpireAt = 6\<rparr>],
       faults = [], issued = [Select 42, Update 42 7, Select 43],
       logs = [LogHandle 42, LogUpdate 7, LogHandle 43, LogAlreadySet 3, LogDone]\<rparr>)"
  by (simp add: eval_defs loop_unfold file0_def store0_def)

text \<open>
  C3. Every gateway call and every run of \<^verbatim>\<open>handleMerchant\<close>, for every connection
  outcome, input file and store, leaves the table with the same rows in the same order,
  with their keys and expiries, and a branch count that was set is still set. When the
  keys of the table are distinct (\<^verbatim>\<open>retailer_id\<close> is the primary key), a branch count
  that was set keeps its value: the only change is from unset to set.
\<close>

theorem branch_count_only_absent_to_present:
  "list_all2 row_stays (rows w) (rows (snd (updateBranchCount db k b w))) \<and>
   list_all2 row_stays (rows w) (rows (snd (handleMerchant env f w))) \<and>
   (distinct (map RetailerID (rows w)) \<longrightarrow>
      list_all2 row_kept (rows w) (rows (snd (updateBranchCount db k b w))) \<and>
      list_all2 row_kept (rows w) (rows (snd (handleMerchant env f w))))"
proof -
  have u: "row_step\<^sup>*\<^sup>* (rows w) (rows (snd (updateBranchCount db k b w)))"
    using updateBranchCount_rows [of db k b w] by auto
  show ?thesis
    using u handleMerchant_rows [of w env f]
    by (auto intro: row_steps_stays row_steps_kept)
qed


theorem branch_count_only_absent_to_present_witness:
  "distinct (map RetailerID (rows store0)) \<and>
   list_all2 row_kept (rows store0) (rows (snd (updateBranchCount OpenDB 43 (Some 9) store0))) \<and>
   list_all2 row_kept (rows store0) (rows (snd (handleMerchant ConnOK file0 store0))) \<and>
   rows (snd (handleMerchant ConnOK file0 store0)) =
     [\<lparr>RetailerID = 42, BranchCount = Some 7, ExpireAt = 5\<rparr>,
      \<lparr>RetailerID = 43, BranchCount = Some 3, ExpireAt = 6\<rparr>]"
proof -
  have d: "distinct (map RetailerID (rows store0))" by (simp add: store0_def)
  show ?thesis
    using branch_count_only_absent_to_present [of store0 OpenDB 43 "Some 9" ConnOK file0] d
    by (simp add: handleMerchant_example)
qed

section \<open>Running the pipeline again\<close>

text \<open>
  A key is settled in a table when the lookup of that key finds no row or a row whose
  branch count is set: a gateway call for the key then writes nothing.
\<close>

definition settled :: "64 word \<Rightarrow> Merchant list \<Rightarrow> bool" where
  "settled k rs =
     (case find (\<lambda>r. RetailerID r = k) rs of None \<Rightarrow> True | Some r \<Rightarrow> BranchCount r \<noteq> None)"

lemma find_map_set_branch:
  "find (\<lambda>r. RetailerID r = k) (map (set_branch k' v) rs) =
     map_option (set_branch k' v) (find (\<lambda>r. RetailerID r = k) rs)"
  by (induction rs) (auto simp: set_branch_def)

lemma settled_step: "row_step rs rs' \<Longrightarrow> settled k rs \<Longrightarrow> settled k rs'"
  by (auto simp: row_step_def settled_def find_map_set_branch set_branch_def
           split: option.splits)

lemma settled_noop:
  "settled k (rows w) \<Longrightarrow> rows (snd (updateBranchCount db k b w)) = rows w"
  by (cases "faults w"; cases "tl (faults w)")
     (auto simp: updateBranchCount_def db_take_def db_update_def round_trip_def logf_def
           settled_def
           split: list.splits bool.splits db_handle.splits option.splits if_splits)

lemma consume_noop:
  "settled (RetailerID m) (rows w) \<Longrightarrow> rows (snd (consume db m w)) = rows w"
proof -
  assume s: "settled (RetailerID m) (rows w)"
  let ?w0 = "logf (LogHandle (RetailerID m)) w"
  let ?u = "updateBranchCount db (RetailerID m) (BranchCount m) ?w0"
  have r: "rows (snd (consume db m w)) = rows (snd ?u)"
    by (cases ?u) (auto simp: consume_def call_gateway_def logf_def split: outcome.splits option.splits)
  have "settled (RetailerID m) (rows ?w0)" using s by (simp add: logf_def)
  then have "rows (snd ?u) = rows ?w0" by (rule settled_noop)
  then show ?thesis using r by (simp add: logf_def)
qed

lemma consume_settles:
  "faults w = [] \<Longrightarrow> BranchCount m \<noteq> None \<Longrightarrow>
   fst (consume OpenDB m w) = Return () \<and> faults (snd (consume OpenDB m w)) = [] \<and>
   settled (RetailerID m) (rows (snd (consume OpenDB m w)))"
  by (cases "find (\<lambda>r. RetailerID r = RetailerID m) (rows w)")
     (auto simp: consume_def call_gateway_def updateBranchCount_def db_take_def db_update_def
           round_trip_def logf_def settled_def find_set_branch
           split: option.splits)

lemma consume_NilDB:
  "fst (consume NilDB m w) = Panic NilDereference \<and> rows (snd (consume NilDB m w)) = rows w"
  by (simp add: consume_def call_gateway_def updateBranchCount_def logf_def)

lemma read_record_branch:
  "fst (read_record n rest) = Send m n' rest' \<Longrightarrow> BranchCount m \<noteq> None"
  by (auto simp: read_record_def split: prod.splits read_result.splits option.splits sum.splits)


lemma pipeline_loop_settles:
  "faults w = [] \<Longrightarrow> \<forall>k\<in>K. settled k (rows w) \<Longrightarrow>
   faults (snd (pipeline_loop OpenDB n rest w)) = [] \<and>
   (\<forall>k\<in>K \<union> RetailerID ` set (records n rest).
      settled k (rows (snd (pipeline_loop OpenDB n rest w))))"
proof (induction OpenDB n rest w arbitrary: K rule: pipeline_loop.induct)
  case (1 n rest w)
  obtain it w1 where lb: "loop_body n rest w = (it, w1)" by (cases "loop_body n rest w")
  have fr: "fst (read_record n rest) = it" "rows w1 = rows w" "faults w1 = faults w"
    using loop_body_frame [of n rest w] lb by simp_all
  show ?case
  proof (cases it)
    case (Send m n' rest')
    obtain out w2 where c: "consume OpenDB m w1 = (out, w2)" by (cases "consume OpenDB m w1")
    have b: "BranchCount m \<noteq> None" using read_record_branch fr(1) Send by simp
    have cs: "out = Return ()" "faults w2 = []" "settled (RetailerID m) (rows w2)"
      using consume_settles [of w1 m] b fr "1.prems" c by simp_all
    have st: "rows w2 = rows w1 \<or> row_step (rows w1) (rows w2)"
      using consume_rows [of OpenDB m w1] c by simp
    have K2: "\<forall>k\<in>insert (RetailerID m) K. settled k (rows w2)"
      using st cs(3) "1.prems"(2) fr(2) by (auto dest: settled_step)
    have ih: "faults (snd (pipeline_loop OpenDB n' rest' w2)) = [] \<and>
        (\<forall>k\<in>insert (RetailerID m) K \<union> RetailerID ` set (records n' rest').
           settled k (rows (snd (pipeline_loop OpenDB n' rest' w2))))"
      using "1.hyps" [OF lb [symmetric] Send c [symmetric] cs(1) cs(2) K2] .
    have p: "pipeline_loop OpenDB n rest w = pipeline_loop OpenDB n' rest' w2"
      using lb Send c cs(1) by (subst pipeline_loop.simps) simp
    have r: "records n rest = m # records n' rest'"
      using fr(1) Send by (subst records.simps) simp
    show ?thesis using ih by (simp add: p r)
  next
    case Break
    have r: "records n rest = []" using fr(1) Break by (subst records.simps) simp
    have p: "snd (pipeline_loop OpenDB n rest w) = w1"
      using lb Break by (subst pipeline_loop.simps) simp
    show ?thesis using "1.prems" fr by (simp add: p r)
  next
    case (Fail e)
    have r: "records n rest = []" using fr(1) Fail by (subst records.simps) simp
    have p: "snd (pipeline_loop OpenDB n rest w) = w1"
      using lb Fail by (subst pipeline_loop.simps) simp
    show ?thesis using "1.prems" fr by (simp add: p r)
  next
    case (Crash x)
    have r: "records n rest = []" using fr(1) Crash by (subst records.simps) simp
    have p: "snd (pipeline_loop OpenDB n rest w) = w1"
      using lb Crash by (subst pipeline_loop.simps) simp
    show ?thesis using "1.prems" fr by (simp add: p r)
  qed
qed


lemma pipeline_loop_noop:
  "\<forall>m\<in>set (records n rest). settled (RetailerID m) (rows w) \<Longrightarrow>
   rows (snd (pipeline_loop db n rest w)) = rows w"
proof (induction db n rest w rule: pipeline_loop.induct)
  case (1 db n rest w)
  obtain it w1 where lb: "loop_body n rest w = (it, w1)" by (cases "loop_body n rest w")
  have fr: "fst (read_record n rest) = it" "rows w1 = rows w"
    using loop_body_frame [of n rest w] lb by simp_all
  show ?case
  proof (cases it)
    case (Send m n' rest')
    obtain out w2 where c: "consume db m w1 = (out, w2)" by (cases "consume db m w1")
    have r: "records n rest = m # records n' rest'"
      using fr(1) Send by (subst records.simps) simp
    have w2: "rows w2 = rows w"
      using consume_noop [of m w1 db] "1.prems" r c fr(2) by simp
    show ?thesis
    proof (cases out)
      case (Return u)
      have "rows (snd (pipeline_loop db n' rest' w2)) = rows w2"
        using "1.IH" [OF lb [symmetric] Send c [symmetric] Return] "1.prems" r w2 by simp
      then show ?thesis
        using lb Send c Return w2 by (subst pipeline_loop.simps) simp
    next
      case (Panic p)
      then show ?thesis using lb Send c w2 by (subst pipeline_loop.simps) simp
    qed
  qed (use lb fr in \<open>subst pipeline_loop.simps, simp\<close>)+
qed

lemma pipeline_loop_NilDB: "rows (snd (pipeline_loop NilDB n rest w)) = rows w"
proof -
  obtain it w1 where lb: "loop_body n rest w = (it, w1)" by (cases "loop_body n rest w")
  have fr: "rows w1 = rows w" using loop_body_frame [of n rest w] lb by simp
  show ?thesis
  proof (cases it)
    case (Send m n' rest')
    obtain out w2 where c: "consume NilDB m w1 = (out, w2)" by (cases "consume NilDB m w1")
    have "out = Panic NilDereference" "rows w2 = rows w1"
      using consume_NilDB [of m w1] c by simp_all
    then show ?thesis using lb Send c fr by (subst pipeline_loop.simps) simp
  qed (use lb fr in \<open>subst pipeline_loop.simps, simp\<close>)+
qed

text \<open>The part of \<^verbatim>\<open>handleMerchant\<close> before and after the loop touches only the log.\<close>

definition prologue :: "conn_env \<Rightarrow> world \<Rightarrow> world" where
  "prologue env w = (case snd (newDB env) of None \<Rightarrow> w | Some e \<Rightarrow> logf (LogNewDBError e) w)"

lemma prologue_frame:
  "rows (prologue env w) = rows w \<and> faults (prologue env w) = faults w \<and>
   issued (prologue env w) = issued w"
  by (simp add: prologue_def logf_def split: option.splits)

lemma handleMerchant_Opened:
  "rows (snd (handleMerchant env (Opened lines) w)) =
     rows (snd (pipeline_loop (fst (newDB env)) 0 lines (prologue env w))) \<and>
   faults (snd (handleMerchant env (Opened lines) w)) =
     faults (snd (pipeline_loop (fst (newDB env)) 0 lines (prologue env w)))"
  by (cases "newDB env"; cases "pipeline_loop (fst (newDB env)) 0 lines (prologue env w)")
     (auto simp: handleMerchant_def prologue_def logf_def Let_def
           split: outcome.splits option.splits)

lemma handleMerchant_Missing: "rows (snd (handleMerchant env Missing w)) = rows w"
  by (simp add: handleMerchant_def logf_def split: prod.splits option.splits)

text \<open>
  C2. After a run in which the store answered every round trip, a second run of
  \<^verbatim>\<open>handleMerchant\<close> over the same input file and the same connection outcome leaves the
  table as the first run left it, whatever the store answers in the second run.
\<close>

theorem handleMerchant_idempotent:
  "faults w = [] \<Longrightarrow>
   rows (snd (handleMerchant env f ((snd (handleMerchant env f w))\<lparr>faults := fs\<rparr>))) =
   rows (snd (handleMerchant env f w))"
proof (cases f)
  case Missing
  then show ?thesis by (simp add: handleMerchant_Missing)
next
  case (Opened lines)
  assume fw: "faults w = []"
  define w1 where "w1 = snd (handleMerchant env f w)"
  define p1 where "p1 = snd (pipeline_loop (fst (newDB env)) 0 lines (prologue env w))"
  have r1: "rows w1 = rows p1"
    by (simp add: w1_def p1_def Opened handleMerchant_Opened)
  let ?w2 = "prologue env (w1\<lparr>faults := fs\<rparr>)"
  have r2: "rows ?w2 = rows w1" by (simp add: prologue_frame)
  have "rows (snd (pipeline_loop (fst (newDB env)) 0 lines ?w2)) = rows ?w2"
  proof (cases "fst (newDB env)")
    case NilDB
    then show ?thesis by (simp add: pipeline_loop_NilDB)
  next
    case OpenDB
    have "\<forall>k\<in>{} \<union> RetailerID ` set (records 0 lines). settled k (rows p1)"
      unfolding p1_def OpenDB
      using pipeline_loop_settles [of "prologue env w" "{}" 0 lines] fw
      by (simp add: prologue_frame)
    then have "\<forall>m\<in>set (records 0 lines). settled (RetailerID m) (rows ?w2)"
      using r1 r2 by simp
    then show ?thesis by (rule pipeline_loop_noop)
  qed
  then have "rows (snd (handleMerchant env f (w1\<lparr>faults := fs\<rparr>))) = rows w1"
    using r2 by (simp add: Opened handleMerchant_Opened)
  then show ?thesis by (simp add: w1_def)
qed


theorem handleMerchant_idempotent_witness:
  "faults store0 = [] \<and>
   rows (snd (handleMerchant ConnOK file0
                ((snd (handleMerchant ConnOK file0 store0))\<lparr>faults := [True]\<rparr>))) =
     [\<lparr>RetailerID = 42, BranchCount = Some 7, ExpireAt = 5\<rparr>,
      \<lparr>RetailerID = 43, BranchCount = Some 3, ExpireAt = 6\<rparr>]"
  using handleMerchant_idempotent [of store0 ConnOK file0 "[True]"]
  by (simp add: handleMerchant_example) (simp add: store0_def)

section \<open>The pipeline, every schedule\<close>

text \<open>
  \<^verbatim>\<open>handleMerchant\<close> starts three goroutines and waits on \<^verbatim>\<open>done\<close>. The producer runs
  \<^verbatim>\<open>fileLoader\<close> and then logs its error; the consumer is the loop of lines 170 to 182;
  the third goroutine waits for the wait group and closes \<^verbatim>\<open>pipe\<close>. The control points:
\<close>

datatype producer =
    P_Open
  | P_Read nat "raw_line list"
  | P_Send Merchant nat "raw_line list"
  | P_Returned "error option"
  | P_End

datatype consumer = C_Recv | C_Handle Merchant | C_Call Merchant | C_Done | C_End

text \<open>What an observer of the channel and of the gateway sees, in order.\<close>

datatype event = Sent Merchant | CallBegin Merchant | CallEnd Merchant

record config =
  producer :: producer
  consumer :: consumer
  wg :: nat
  pipe_closed :: bool
  exited :: bool
  crashed :: "panic option"
  db_of :: db_handle
  src :: input_file
  wld :: world
  trace :: "event list"

definition live :: "config \<Rightarrow> bool" where
  "live c = (crashed c = None \<and> \<not> exited c)"

text \<open>
  One step of one goroutine. A send on the unbuffered channel and its receive are one
  step (\<open>handoff\<close>). A panic in any goroutine ends the process, and so does the return
  of \<^verbatim>\<open>handleMerchant\<close> into \<^verbatim>\<open>main\<close>: no step leaves a configuration that is not live.
\<close>

inductive step :: "config \<Rightarrow> config \<Rightarrow> bool" where
  open_missing:
    "live c \<Longrightarrow> producer c = P_Open \<Longrightarrow> src c = Missing \<Longrightarrow>
     step c (c\<lparr>producer := P_Returned (Some ErrOpenFile), wg := wg c - 1\<rparr>)"
| open_ok:
    "live c \<Longrightarrow> producer c = P_Open \<Longrightarrow> src c = Opened lines \<Longrightarrow>
     step c (c\<lparr>producer := P_Read 0 lines\<rparr>)"
| read_break:
    "live c \<Longrightarrow> producer c = P_Read n rest \<Longrightarrow> loop_body n rest (wld c) = (Break, w') \<Longrightarrow>
     step c (c\<lparr>producer := P_Returned None, wg := wg c - 1, wld := w'\<rparr>)"
| read_fail:
    "live c \<Longrightarrow> producer c = P_Read n rest \<Longrightarrow> loop_body n rest (wld c) = (Fail e, w') \<Longrightarrow>
     step c (c\<lparr>producer := P_Returned (Some e), wg := wg c - 1, wld := w'\<rparr>)"
| read_crash:
    "live c \<Longrightarrow> producer c = P_Read n rest \<Longrightarrow> loop_body n rest (wld c) = (Crash p, w') \<Longrightarrow>
     step c (c\<lparr>crashed := Some p, wld := w'\<rparr>)"
| read_send:
    "live c \<Longrightarrow> producer c = P_Read n rest \<Longrightarrow>
     loop_body n rest (wld c) = (Send m n' rest', w') \<Longrightarrow>
     step c (c\<lparr>producer := P_Send m n' rest', wld := w'\<rparr>)"
| handoff:
    "live c \<Longrightarrow> producer c = P_Send m n' rest' \<Longrightarrow> consumer c = C_Recv \<Longrightarrow>
     \<not> pipe_closed c \<Longrightarrow>
     step c (c\<lparr>producer := P_Read n' rest', consumer := C_Handle m,
               trace := trace c @ [Sent m]\<rparr>)"
| send_closed:
    "live c \<Longrightarrow> producer c = P_Send m n' rest' \<Longrightarrow> pipe_closed c \<Longrightarrow>
     step c (c\<lparr>crashed := Some SendOnClosedChannel\<rparr>)"
| begin_call:
    "live c \<Longrightarrow> consumer c = C_Handle m \<Longrightarrow>
     step c (c\<lparr>consumer := C_Call m, wld := logf (LogHandle (RetailerID m)) (wld c),
               trace := trace c @ [CallBegin m]\<rparr>)"
| call_return:
    "live c \<Longrightarrow> consumer c = C_Call m \<Longrightarrow>
     call_gateway (db_of c) m (wld c) = (Return u, w') \<Longrightarrow>
     step c (c\<lparr>consumer := C_Recv, wld := w', trace := trace c @ [CallEnd m]\<rparr>)"
| call_panic:
    "live c \<Longrightarrow> consumer c = C_Call m \<Longrightarrow>
     call_gateway (db_of c) m (wld c) = (Panic p, w') \<Longrightarrow>
     step c (c\<lparr>crashed := Some p, wld := w'\<rparr>)"
| log_result:
    "live c \<Longrightarrow> producer c = P_Returned r \<Longrightarrow>
     step c (c\<lparr>producer := P_End,
               wld := (case r of None \<Rightarrow> wld c | Some e \<Rightarrow> logf (LogLoadError e) (wld c))\<rparr>)"
| close_pipe:
    "live c \<Longrightarrow> wg c = 0 \<Longrightarrow> \<not> pipe_closed c \<Longrightarrow>
     step c (c\<lparr>pipe_closed := True\<rparr>)"
| recv_closed:
    "live c \<Longrightarrow> consumer c = C_Recv \<Longrightarrow> pipe_closed c \<Longrightarrow>
     step c (c\<lparr>consumer := C_Done, wld := logf LogDone (wld c)\<rparr>)"
| send_done:
    "live c \<Longrightarrow> consumer c = C_Done \<Longrightarrow>
     step c (c\<lparr>consumer := C_End, exited := True\<rparr>)"

text \<open>
  The configuration when the goroutines have been started (lines 159 to 197): the
  connection outcome is known and its error logged, the wait group counts one.
\<close>

definition init :: "conn_env \<Rightarrow> input_file \<Rightarrow> world \<Rightarrow> config" where
  "init env f w =
     \<lparr>producer = P_Open, consumer = C_Recv, wg = 1, pipe_closed = False, exited = False,
      crashed = None, db_of = fst (newDB env), src = f, wld = prologue env w, trace = []\<rparr>"

definition reachable :: "conn_env \<Rightarrow> input_file \<Rightarrow> world \<Rightarrow> config \<Rightarrow> bool" where
  "reachable env f w c = step\<^sup>*\<^sup>* (init env f w) c"


section \<open>Invariants of the pipeline\<close>

definition sent_of :: "event list \<Rightarrow> Merchant list" where
  "sent_of tr = concat (map (\<lambda>e. case e of Sent m \<Rightarrow> [m] | _ \<Rightarrow> []) tr)"

definition ended_of :: "event list \<Rightarrow> Merchant list" where
  "ended_of tr = concat (map (\<lambda>e. case e of CallEnd m \<Rightarrow> [m] | _ \<Rightarrow> []) tr)"

definition calls_of :: "event list \<Rightarrow> event list" where
  "calls_of tr = filter (\<lambda>e. case e of Sent m \<Rightarrow> False | _ \<Rightarrow> True) tr"

definition serial :: "Merchant list \<Rightarrow> event list" where
  "serial ms = concat (map (\<lambda>m. [CallBegin m, CallEnd m]) ms)"

definition ctl :: "config \<Rightarrow> bool" where
  "ctl c =
     ((pipe_closed c \<longrightarrow> wg c = 0) \<and>
      (consumer c = C_Done \<or> consumer c = C_End \<longrightarrow> pipe_closed c) \<and>
      (exited c = (consumer c = C_End)) \<and>
      (wg c = (case producer c of P_Returned r \<Rightarrow> 0 | P_End \<Rightarrow> 0 | _ \<Rightarrow> 1)) \<and>
      (crashed c \<noteq> None \<longrightarrow> \<not> exited c))"

definition sync :: "config \<Rightarrow> bool" where
  "sync c =
     (case consumer c of
        C_Handle m \<Rightarrow>
          sent_of (trace c) = ended_of (trace c) @ [m] \<and>
          calls_of (trace c) = serial (ended_of (trace c))
      | C_Call m \<Rightarrow>
          sent_of (trace c) = ended_of (trace c) @ [m] \<and>
          calls_of (trace c) = serial (ended_of (trace c)) @ [CallBegin m]
      | _ \<Rightarrow>
          sent_of (trace c) = ended_of (trace c) \<and>
          calls_of (trace c) = serial (ended_of (trace c)))"

lemma step_ctl: "step c c' \<Longrightarrow> ctl c \<Longrightarrow> ctl c'"
  by (erule step.cases) (auto simp: ctl_def live_def split: producer.splits)

lemma step_sync: "step c c' \<Longrightarrow> sync c \<Longrightarrow> sync c'"
  by (erule step.cases)
     (auto simp: sync_def sent_of_def ended_of_def calls_of_def serial_def
           split: consumer.splits)

lemma init_ctl: "ctl (init env f w)"
  by (simp add: ctl_def init_def)

lemma init_sync: "sync (init env f w)"
  by (simp add: sync_def init_def sent_of_def ended_of_def calls_of_def serial_def)

lemma reachable_ctl: "reachable env f w c \<Longrightarrow> ctl c"
  unfolding reachable_def
  by (induction rule: rtranclp_induct) (auto intro: init_ctl step_ctl)

lemma reachable_sync: "reachable env f w c \<Longrightarrow> sync c"
  unfolding reachable_def
  by (induction rule: rtranclp_induct) (auto intro: init_sync step_sync)


text \<open>What \<^verbatim>\<open>fileLoader\<close> sends and returns for an input file.\<close>

definition all_records :: "input_file \<Rightarrow> Merchant list" where
  "all_records f = (case f of Missing \<Rightarrow> [] | Opened lines \<Rightarrow> records 0 lines)"

definition fileLoader_result :: "input_file \<Rightarrow> error option outcome" where
  "fileLoader_result f =
     (case f of Missing \<Rightarrow> Return (Some ErrOpenFile) | Opened lines \<Rightarrow> loader_result 0 lines)"

definition feeds :: "config \<Rightarrow> bool" where
  "feeds c =
     (case producer c of
        P_Open \<Rightarrow> sent_of (trace c) = []
      | P_Read n rest \<Rightarrow>
          sent_of (trace c) @ records n rest = all_records (src c) \<and>
          loader_result n rest = fileLoader_result (src c) \<and>
          (sent_of (trace c) = [] \<or> 2 \<le> n)
      | P_Send m n rest \<Rightarrow>
          sent_of (trace c) @ m # records n rest = all_records (src c) \<and>
          loader_result n rest = fileLoader_result (src c) \<and> 2 \<le> n
      | P_Returned r \<Rightarrow>
          sent_of (trace c) = all_records (src c) \<and> fileLoader_result (src c) = Return r
      | P_End \<Rightarrow>
          sent_of (trace c) = all_records (src c) \<and>
          (case fileLoader_result (src c) of Return r \<Rightarrow> True | Panic p \<Rightarrow> False))"

lemma reader_Read_count:
  "reader_Read n rest = (Line line, n', rest') \<Longrightarrow>
   n' = length line \<and> (n = 0 \<or> n = length line)"
  by (induction n rest rule: reader_Read.induct) (auto split: if_splits)

lemma read_record_Send:
  "fst (read_record n rest) = Send m n' rest' \<Longrightarrow>
   records n rest = m # records n' rest' \<and> loader_result n rest = loader_result n' rest' \<and>
   2 \<le> n'"
proof -
  assume a: "fst (read_record n rest) = Send m n' rest'"
  have "2 \<le> n'"
    using a
    by (auto simp: read_record_def index_def
             split: prod.splits read_result.splits option.splits sum.splits if_splits
             dest!: reader_Read_count)
  then show ?thesis
    using a by (subst records.simps, subst loader_result.simps) simp
qed

lemma read_record_Break:
  "fst (read_record n rest) = Break \<Longrightarrow>
   records n rest = [] \<and> loader_result n rest = Return None"
  by (subst records.simps, subst loader_result.simps) simp

lemma read_record_Fail:
  "fst (read_record n rest) = Fail e \<Longrightarrow>
   records n rest = [] \<and> loader_result n rest = Return (Some e)"
  by (subst records.simps, subst loader_result.simps) simp

lemma read_record_Crash:
  "fst (read_record n rest) = Crash p \<Longrightarrow>
   records n rest = [] \<and> loader_result n rest = Panic IndexOutOfRange \<and>
   p = IndexOutOfRange \<and> n < 2"
proof -
  assume a: "fst (read_record n rest) = Crash p"
  have "p = IndexOutOfRange \<and> n < 2"
    using a
    by (auto simp: read_record_def index_def
             split: prod.splits read_result.splits option.splits sum.splits if_splits
             dest!: reader_Read_count)
  then show ?thesis
    using a by (subst records.simps, subst loader_result.simps) simp
qed

lemma loop_body_fst: "loop_body n rest w = (it, w') \<Longrightarrow> fst (read_record n rest) = it"
  using loop_body_frame [of n rest w] by simp

lemma step_src: "step c c' \<Longrightarrow> src c' = src c \<and> db_of c' = db_of c"
  by (erule step.cases) auto

lemma step_feeds: "step c c' \<Longrightarrow> feeds c \<Longrightarrow> feeds c'"
  by (erule step.cases)
     (auto simp: feeds_def sent_of_def all_records_def fileLoader_result_def
           dest!: loop_body_fst
           dest: read_record_Send read_record_Break read_record_Fail read_record_Crash
           split: producer.splits outcome.splits)


lemma init_feeds: "feeds (init env f w)"
  by (simp add: feeds_def init_def sent_of_def)

lemma reachable_feeds: "reachable env f w c \<Longrightarrow> feeds c"
  unfolding reachable_def
  by (induction rule: rtranclp_induct) (auto intro: init_feeds step_feeds)

lemma reachable_src: "reachable env f w c \<Longrightarrow> src c = f \<and> db_of c = fst (newDB env)"
  unfolding reachable_def
  by (induction rule: rtranclp_induct) (auto simp: init_def dest: step_src)

lemma records_branch: "m \<in> set (records n rest) \<Longrightarrow> BranchCount m \<noteq> None"
proof (induction n rest rule: records.induct)
  case (1 n rest)
  show ?case
  proof (cases "fst (read_record n rest)")
    case (Send m' n' rest')
    have r: "records n rest = m' # records n' rest'" using read_record_Send [OF Send] by simp
    show ?thesis
      using "1.prems" "1.IH" [OF Send] read_record_branch [OF Send] by (auto simp: r)
  qed (use "1.prems" in \<open>auto dest: read_record_Break read_record_Fail read_record_Crash\<close>)
qed

text \<open>Why a run can end in a panic: the two reasons, and nothing was done before.\<close>

definition crash_ok :: "config \<Rightarrow> bool" where
  "crash_ok c =
     ((case crashed c of
         None \<Rightarrow> True
       | Some p \<Rightarrow>
           (p = IndexOutOfRange \<and> fileLoader_result (src c) = Panic IndexOutOfRange \<and>
            all_records (src c) = []) \<or>
           (p = NilDereference \<and> db_of c = NilDB)) \<and>
      (db_of c = NilDB \<longrightarrow> ended_of (trace c) = []) \<and>
      (\<forall>m\<in>set (sent_of (trace c)). BranchCount m \<noteq> None))"

lemma call_gateway_Panic:
  "call_gateway db m w = (Panic p, w') \<Longrightarrow>
   p = NilDereference \<and> rows w' = rows w \<and> (db = NilDB \<or> BranchCount m = None)"
  by (cases "faults w"; cases "tl (faults w)")
     (auto simp: call_gateway_def updateBranchCount_def db_take_def db_update_def
           round_trip_def logf_def
           split: list.splits bool.splits db_handle.splits option.splits if_splits
                  outcome.splits prod.splits sum.splits)

lemma call_gateway_NilDB: "call_gateway NilDB m w = (Panic NilDereference, w)"
  by (simp add: call_gateway_def updateBranchCount_def)

lemma in_middle: "xs @ m # ys = zs \<Longrightarrow> m \<in> set zs"
  by auto

lemma all_records_branch: "m \<in> set (all_records f) \<Longrightarrow> BranchCount m \<noteq> None"
  by (cases f) (auto simp: all_records_def dest: records_branch)

lemma step_crash_ok:
  assumes "step c c'" "ctl c" "sync c" "feeds c" "crash_ok c"
  shows "crash_ok c'"
  using assms(1)
proof (cases rule: step.cases)
  case (read_crash n rest p w')
  then show ?thesis
    using assms(4,5)
    by (auto simp: crash_ok_def feeds_def fileLoader_result_def live_def
             dest!: loop_body_fst dest: read_record_Crash)
next
  case (handoff m n' rest')
  have "m \<in> set (all_records (src c))"
    using assms(4) handoff by (auto simp: feeds_def dest: in_middle)
  then have "BranchCount m \<noteq> None" by (rule all_records_branch)
  then show ?thesis
    using assms(5) handoff by (auto simp: crash_ok_def sent_of_def ended_of_def live_def)
next
  case (send_closed m n' rest')
  then show ?thesis using assms(2) by (auto simp: ctl_def)
next
  case (call_return m u w')
  then show ?thesis
    using assms(5) by (auto simp: crash_ok_def sent_of_def ended_of_def live_def call_gateway_NilDB)
next
  case (call_panic m p w')
  have "m \<in> set (sent_of (trace c))" using assms(3) call_panic by (simp add: sync_def)
  then have "BranchCount m \<noteq> None" using assms(5) by (simp add: crash_ok_def)
  then show ?thesis
    using assms(5) call_panic call_gateway_Panic [of "db_of c" m "wld c" p w']
    by (auto simp: crash_ok_def live_def)
qed (use assms(5) in \<open>auto simp: crash_ok_def sent_of_def ended_of_def live_def\<close>)

lemma init_crash_ok: "crash_ok (init env f w)"
  by (simp add: crash_ok_def init_def sent_of_def ended_of_def)

lemma reachable_crash_ok: "reachable env f w c \<Longrightarrow> crash_ok c"
proof -
  assume r: "reachable env f w c"
  then have "step\<^sup>*\<^sup>* (init env f w) c" by (simp add: reachable_def)
  then show ?thesis
  proof (induction rule: rtranclp_induct)
    case base
    show ?case by (rule init_crash_ok)
  next
    case (step y z)
    have ry: "reachable env f w y" using step.hyps(1) by (simp add: reachable_def)
    show ?case
      using step_crash_ok [OF step.hyps(2) reachable_ctl [OF ry] reachable_sync [OF ry]
              reachable_feeds [OF ry] step.IH] .
  qed
qed


section \<open>Every run ends\<close>

definition producer_weight :: "input_file \<Rightarrow> producer \<Rightarrow> nat" where
  "producer_weight f p =
     (case p of
        P_Open \<Rightarrow> 4 * (case f of Missing \<Rightarrow> 0 | Opened lines \<Rightarrow> length lines) + 6
      | P_Read n rest \<Rightarrow> 4 * length rest + 5
      | P_Send m n rest \<Rightarrow> 4 * length rest + 8
      | P_Returned r \<Rightarrow> 1
      | P_End \<Rightarrow> 0)"

definition consumer_weight :: "consumer \<Rightarrow> nat" where
  "consumer_weight q =
     (case q of C_Handle m \<Rightarrow> 4 | C_Call m \<Rightarrow> 3 | C_Recv \<Rightarrow> 2 | C_Done \<Rightarrow> 1 | C_End \<Rightarrow> 0)"

definition weight :: "config \<Rightarrow> nat" where
  "weight c =
     producer_weight (src c) (producer c) + consumer_weight (consumer c) +
     (if pipe_closed c then 0 else 1) + (if live c then 1 else 0)"

lemma step_weight: "step c c' \<Longrightarrow> weight c' < weight c"
  by (erule step.cases)
     (auto simp: weight_def producer_weight_def consumer_weight_def live_def
           dest: loop_body_shorter)

lemma step_terminates: "wfP (\<lambda>c' c. step c c')"
proof -
  have "{(c', c). step c c'} \<subseteq> measure weight"
    by (auto dest: step_weight)
  then have "wf {(c', c). step c c'}"
    by (rule wf_subset [OF wf_measure])
  then show ?thesis by (simp add: wfp_def)
qed

lemma progress: "ctl c \<Longrightarrow> live c \<Longrightarrow> \<exists>c'. step c c'"
proof -
  assume ctl: "ctl c" and live: "live c"
  show ?thesis
  proof (cases "producer c")
    case P_Open
    then show ?thesis
      using live by (cases "src c") (blast intro: open_missing open_ok)+
  next
    case (P_Read n rest)
    obtain it w' where lb: "loop_body n rest (wld c) = (it, w')"
      by (cases "loop_body n rest (wld c)")
    show ?thesis
      using live P_Read lb
      by (cases it) (blast intro: read_break read_fail read_crash read_send)+
  next
    case (P_Returned r)
    then show ?thesis using live by (blast intro: log_result)
  next
    case other: (P_Send m n rest)
    show ?thesis
    proof (cases "consumer c")
      case C_Recv
      then show ?thesis
        using live other by (cases "pipe_closed c") (blast intro: handoff send_closed)+
    next
      case (C_Handle m')
      then show ?thesis using live by (blast intro: begin_call)
    next
      case (C_Call m')
      obtain out w' where g: "call_gateway (db_of c) m' (wld c) = (out, w')"
        by (cases "call_gateway (db_of c) m' (wld c)")
      show ?thesis
        using live C_Call g by (cases out) (blast intro: call_return call_panic)+
    next
      case C_Done
      then show ?thesis using live by (blast intro: send_done)
    next
      case C_End
      then show ?thesis using ctl live by (simp add: ctl_def live_def)
    qed
  next
    case P_End
    show ?thesis
    proof (cases "consumer c")
      case C_Recv
      have "wg c = 0" using ctl P_End by (simp add: ctl_def)
      then show ?thesis
        using live C_Recv by (cases "pipe_closed c") (blast intro: recv_closed close_pipe)+
    next
      case (C_Handle m')
      then show ?thesis using live by (blast intro: begin_call)
    next
      case (C_Call m')
      obtain out w' where g: "call_gateway (db_of c) m' (wld c) = (out, w')"
        by (cases "call_gateway (db_of c) m' (wld c)")
      show ?thesis
        using live C_Call g by (cases out) (blast intro: call_return call_panic)+
    next
      case C_Done
      then show ?thesis using live by (blast intro: send_done)
    next
      case C_End
      then show ?thesis using ctl live by (simp add: ctl_def live_def)
    qed
  qed
qed

lemma run_to_end: "ctl c \<Longrightarrow> \<exists>c'. step\<^sup>*\<^sup>* c c' \<and> \<not> live c'"
proof (induction c rule: measure_induct_rule [where f = weight])
  case (less c)
  show ?case
  proof (cases "live c")
    case False
    then show ?thesis by blast
  next
    case True
    then obtain c1 where s: "step c c1" using progress [OF less.prems] by blast
    have "ctl c1" using s less.prems by (rule step_ctl)
    then obtain c' where "step\<^sup>*\<^sup>* c1 c'" "\<not> live c'"
      using less.IH [OF step_weight [OF s]] by blast
    then show ?thesis using s by (blast intro: converse_rtranclp_into_rtranclp)
  qed
qed

lemma run_exists: "\<exists>c. reachable env f w c \<and> \<not> live c"
  using run_to_end [OF init_ctl, of env f w] by (simp add: reachable_def)


section \<open>The store along a run\<close>

text \<open>The consumer's calls for a list of records, one after the other.\<close>

fun run_calls :: "db_handle \<Rightarrow> Merchant list \<Rightarrow> world \<Rightarrow> world" where
  "run_calls db [] w = w"
| "run_calls db (m # ms) w = run_calls db ms (snd (consume db m w))"

definition same_db :: "world \<Rightarrow> world \<Rightarrow> bool" where
  "same_db w w2 = (rows w = rows w2 \<and> faults w = faults w2 \<and> issued w = issued w2)"

lemma run_calls_snoc: "run_calls db (ms @ [m]) w = snd (consume db m (run_calls db ms w))"
  by (induction ms arbitrary: w) auto

lemma updateBranchCount_same_db:
  "same_db w w2 \<Longrightarrow>
   fst (updateBranchCount db k b w) = fst (updateBranchCount db k b w2) \<and>
   same_db (snd (updateBranchCount db k b w)) (snd (updateBranchCount db k b w2))"
  by (cases "faults w2"; cases "tl (faults w2)")
     (auto simp: same_db_def updateBranchCount_def db_take_def db_update_def
           round_trip_def logf_def
           split: list.splits bool.splits db_handle.splits option.splits if_splits)

lemma call_gateway_same_db:
  "same_db w w2 \<Longrightarrow>
   fst (call_gateway db m w) = fst (call_gateway db m w2) \<and>
   same_db (snd (call_gateway db m w)) (snd (call_gateway db m w2))"
proof -
  assume a: "same_db w w2"
  let ?u = "updateBranchCount db (RetailerID m) (BranchCount m) w"
  let ?u2 = "updateBranchCount db (RetailerID m) (BranchCount m) w2"
  have u: "fst ?u = fst ?u2" "same_db (snd ?u) (snd ?u2)"
    using updateBranchCount_same_db [OF a] by simp_all
  show ?thesis
    using u
    by (cases ?u; cases ?u2)
       (auto simp: call_gateway_def same_db_def logf_def split: outcome.splits option.splits)
qed

lemma same_db_logf: "same_db (logf e w) w2 = same_db w w2 \<and> same_db w (logf e w2) = same_db w w2"
  by (simp add: same_db_def logf_def)

lemma same_db_loop_body: "loop_body n rest w = (it, w') \<Longrightarrow> same_db w' w2 = same_db w w2"
  using loop_body_frame [of n rest w] by (simp add: same_db_def)

lemma rows_logf: "rows (logf e w) = rows w"
  by (simp add: logf_def)

lemma rows_loop_body: "loop_body n rest w = (it, w') \<Longrightarrow> rows w' = rows w"
  using loop_body_frame [of n rest w] by simp

lemma ended_of_snoc:
  "ended_of (tr @ [e]) = ended_of tr @ (case e of CallEnd m \<Rightarrow> [m] | _ \<Rightarrow> [])"
  by (simp add: ended_of_def)

definition tracks :: "world \<Rightarrow> config \<Rightarrow> bool" where
  "tracks w0 c =
     (rows (wld c) = rows (run_calls (db_of c) (ended_of (trace c)) w0) \<and>
      (crashed c = None \<longrightarrow> same_db (wld c) (run_calls (db_of c) (ended_of (trace c)) w0)))"

lemma step_tracks:
  assumes "step c c'" "tracks w0 c"
  shows "tracks w0 c'"
  using assms(1)
proof (cases rule: step.cases)
  case (call_return m u w')
  let ?r = "run_calls (db_of c) (ended_of (trace c)) w0"
  have a: "same_db (wld c) (logf (LogHandle (RetailerID m)) ?r)"
    using assms(2) call_return by (simp add: tracks_def live_def same_db_logf)
  have "same_db w' (snd (consume (db_of c) m ?r))"
    using call_gateway_same_db [OF a, of "db_of c" m] call_return by (simp add: consume_def)
  then show ?thesis
    using call_return by (simp add: tracks_def ended_of_snoc run_calls_snoc same_db_def)
next
  case (call_panic m p w')
  then show ?thesis
    using assms(2) call_gateway_Panic [of "db_of c" m "wld c" p w']
    by (simp add: tracks_def)
qed (use assms(2) in \<open>auto simp: tracks_def ended_of_snoc live_def same_db_logf
       same_db_loop_body rows_logf rows_loop_body split: option.splits\<close>)


lemma init_tracks: "tracks (prologue env w) (init env f w)"
  by (simp add: tracks_def init_def ended_of_def same_db_def)

lemma reachable_tracks: "reachable env f w c \<Longrightarrow> tracks (prologue env w) c"
  unfolding reachable_def
  by (induction rule: rtranclp_induct) (auto intro: init_tracks step_tracks)

text \<open>The keys the store was asked for, in the order of the lookups.\<close>

definition lookups :: "stmt list \<Rightarrow> 64 word list" where
  "lookups qs = concat (map (\<lambda>q. case q of Select k \<Rightarrow> [k] | Update k v \<Rightarrow> []) qs)"

lemma updateBranchCount_lookups:
  "lookups (issued (snd (updateBranchCount OpenDB k b w))) = lookups (issued w) @ [k]"
  by (cases "faults w"; cases "tl (faults w)")
     (auto simp: lookups_def updateBranchCount_def db_take_def db_update_def
           round_trip_def logf_def
           split: list.splits bool.splits option.splits if_splits)

lemma consume_lookups:
  "lookups (issued (snd (consume OpenDB m w))) = lookups (issued w) @ [RetailerID m]"
proof -
  let ?w0 = "logf (LogHandle (RetailerID m)) w"
  let ?u = "updateBranchCount OpenDB (RetailerID m) (BranchCount m) ?w0"
  have "issued (snd (consume OpenDB m w)) = issued (snd ?u)"
    by (cases ?u) (auto simp: consume_def call_gateway_def logf_def split: outcome.splits option.splits)
  then show ?thesis
    using updateBranchCount_lookups [of "RetailerID m" "BranchCount m" ?w0]
    by (simp add: logf_def)
qed

lemma run_calls_lookups:
  "lookups (issued (run_calls OpenDB ms w)) = lookups (issued w) @ map RetailerID ms"
  by (induction ms arbitrary: w) (auto simp: consume_lookups)

lemma ended_prefix:
  assumes "sync c" "feeds c"
  shows "\<exists>later. ended_of (trace c) @ later = all_records (src c)"
proof -
  have s: "\<exists>xs. ended_of (trace c) @ xs = sent_of (trace c)"
    using assms(1) by (cases "consumer c") (auto simp: sync_def)
  have "\<exists>ys. sent_of (trace c) @ ys = all_records (src c)"
    using assms(2) by (cases "producer c") (auto simp: feeds_def)
  then show ?thesis using s by (metis append.assoc)
qed

lemma exit_facts:
  assumes "reachable env f w c" "exited c"
  shows "crashed c = None \<and> pipe_closed c \<and> consumer c = C_End \<and>
         sent_of (trace c) = all_records f \<and> ended_of (trace c) = all_records f \<and>
         calls_of (trace c) = serial (all_records f) \<and>
         (\<exists>r. fileLoader_result f = Return r) \<and>
         same_db (wld c) (run_calls (fst (newDB env)) (all_records f) (prologue env w))"
proof -
  note src = reachable_src [OF assms(1)]
  have ctl: "ctl c" and sync: "sync c" and feeds: "feeds c" and tr: "tracks (prologue env w) c"
    using assms(1) by (auto intro: reachable_ctl reachable_sync reachable_feeds reachable_tracks)
  have c: "consumer c = C_End" "pipe_closed c" "wg c = 0" "crashed c = None"
    using ctl assms(2) by (auto simp: ctl_def)
  have p: "sent_of (trace c) = all_records f \<and> (\<exists>r. fileLoader_result f = Return r)"
    using feeds c(3) ctl src
    by (cases "producer c") (auto simp: feeds_def ctl_def split: outcome.splits)
  have e: "sent_of (trace c) = ended_of (trace c)" "calls_of (trace c) = serial (ended_of (trace c))"
    using sync c(1) by (simp_all add: sync_def)
  show ?thesis
    using c p e tr src by (simp add: tracks_def)
qed

lemma crash_facts:
  assumes "reachable env f w c" "crashed c = Some p"
  shows "(p = IndexOutOfRange \<and> fileLoader_result f = Panic IndexOutOfRange \<and>
          all_records f = []) \<or>
         (p = NilDereference \<and> fst (newDB env) = NilDB)"
  using reachable_crash_ok [OF assms(1)] reachable_src [OF assms(1)] assms(2)
  by (auto simp: crash_ok_def)

end
